theory Spec2Isabelle
  imports Complex_Main
begin

section \<open>Data model\<close>

text \<open>
  Candidates are Python integers. A ranking is a list of tie groups, each a list of
  candidates, exactly as \<open>parse_ranking\<close> builds it. A ballot type is the pair
  \<open>(weight, ranking)\<close>; the weight is a Python integer.

  Scores are Python floats in the source: each share is \<open>weight / len(group_rem)\<close>,
  added to the score with \<open>+=\<close>. The model computes them as exact rationals and applies
  the source's absolute tolerance \<open>1e-9\<close> to these exact values. It agrees with the
  source where the float arithmetic is exact, as for integer scores of moderate size.
  It does not show what the floats add:
  \<^item> rounding of shares and of sums, which can move a score across the tolerance;
  \<^item> \<open>OverflowError\<close> from the division for a weight beyond the largest float;
  \<^item> a score that overflows to \<open>inf\<close>, for which \<open>abs(inf - inf) < 1e-9\<close> is false, so
    that no candidate is removed and the loop of \<open>stv\<close> does not end.

  Every statement below about scores, and about the rounds of \<open>stv\<close> always ending, is a
  statement about exact scores.
\<close>

type_synonym candidate = int
type_synonym ranking = "candidate list list"
type_synonym ballot = "int \<times> ranking"
type_synonym scores = "candidate \<rightharpoonup> rat"

datatype error = TypeError

section \<open>Tabulation\<close>

text \<open>\<open>for c in group_rem: scores[c] += share\<close>\<close>

fun add_shares :: "scores \<Rightarrow> candidate list \<Rightarrow> rat \<Rightarrow> scores" where
  "add_shares scores [] share = scores"
| "add_shares scores (c # cs) share =
     add_shares (scores(c \<mapsto> the (scores c) + share)) cs share"

text \<open>
  The loop over the tie groups of one ballot: the first group with a remaining candidate
  receives the whole weight, split evenly, and the loop breaks. A ranking without any
  remaining candidate leaves the scores unchanged (the ballot is exhausted).
\<close>

fun ballot_scores :: "candidate list \<Rightarrow> scores \<Rightarrow> int \<Rightarrow> ranking \<Rightarrow> scores" where
  "ballot_scores remaining scores weight [] = scores"
| "ballot_scores remaining scores weight (grp # ranking) =
     (let group_rem = filter (\<lambda>c. c \<in> set remaining) grp
      in if group_rem \<noteq> []
         then add_shares scores group_rem (of_int weight / of_nat (length group_rem))
         else ballot_scores remaining scores weight ranking)"

text \<open>\<open>for weight, ranking in ballots\<close>\<close>

fun scores_loop :: "candidate list \<Rightarrow> scores \<Rightarrow> ballot list \<Rightarrow> scores" where
  "scores_loop remaining scores [] = scores"
| "scores_loop remaining scores ((weight, ranking) # ballots) =
     scores_loop remaining (ballot_scores remaining scores weight ranking) ballots"

text \<open>
  \<open>plurality_scores\<close>: the dictionary starts as \<open>{c: 0.0 for c in remaining}\<close>. The
  argument \<open>remaining\<close> is a Python set; it is represented by a list, of which the
  function only uses the membership test.
\<close>

definition plurality_scores :: "candidate list \<Rightarrow> ballot list \<Rightarrow> scores" where
  "plurality_scores remaining ballots =
     scores_loop remaining (\<lambda>c. if c \<in> set remaining then Some 0 else None) ballots"

text \<open>
  The candidates removed in one round: \<open>min_score\<close> is the least score of a remaining
  candidate, and \<open>losers\<close> are the remaining candidates within \<open>1e-9\<close> of it.
\<close>

definition round_losers :: "candidate list \<Rightarrow> ballot list \<Rightarrow> candidate list" where
  "round_losers remaining ballots =
     (let scores = plurality_scores remaining ballots;
          min_score = min_list (map (\<lambda>c. the (scores c)) remaining)
      in filter (\<lambda>c. \<bar>the (scores c) - min_score\<bar> < 1 / 1000000000) remaining)"

text \<open>
  Some remaining candidate attains the minimum, so a round on a non-empty set removes at
  least one candidate. The loop below terminates for this reason.
\<close>

lemma min_list_attained:
  fixes f :: "'a \<Rightarrow> rat"
  assumes "xs \<noteq> []"
  shows "\<exists>x \<in> set xs. f x = min_list (map f xs)"
proof -
  have "min_list (map f xs) = Min (set (map f xs))"
    using assms by (intro min_list_Min) simp
  moreover have "Min (set (map f xs)) \<in> set (map f xs)"
    using assms by (intro Min_in) simp_all
  ultimately have "min_list (map f xs) \<in> f ` set xs"
    by (simp del: min_list.simps)
  then show ?thesis
    by force
qed

lemma round_losers_nonempty:
  assumes "remaining \<noteq> []"
  shows "\<exists>c \<in> set remaining. c \<in> set (round_losers remaining ballots)"
proof -
  obtain c where "c \<in> set remaining"
    and "the (plurality_scores remaining ballots c) =
         min_list (map (\<lambda>c. the (plurality_scores remaining ballots c)) remaining)"
    using min_list_attained [OF assms, of "\<lambda>c. the (plurality_scores remaining ballots c)"]
    by blast
  then have "c \<in> set (round_losers remaining ballots)"
    by (simp add: round_losers_def Let_def del: min_list.simps)
  with \<open>c \<in> set remaining\<close> show ?thesis
    by blast
qed

lemma round_shrinks:
  "length (filter (\<lambda>c. c \<notin> set (round_losers (r # rs) ballots)) (r # rs)) < Suc (length rs)"
proof -
  obtain c where "c \<in> set (r # rs)" "c \<in> set (round_losers (r # rs) ballots)"
    using round_losers_nonempty [of "r # rs" ballots] by blast
  then have "length (filter (\<lambda>c. c \<notin> set (round_losers (r # rs) ballots)) (r # rs))
      < length (r # rs)"
    by (intro length_filter_less [of c]) simp_all
  then show ?thesis
    by (simp del: filter.simps)
qed

text \<open>
  The loop of \<open>stv\<close>, on the state \<open>(remaining, elimination_order, last_losers)\<close>.
  \<open>remaining\<close> is a Python set, represented by a list without duplicates; the order in
  which Python enumerates a set is not specified, and the model enumerates it in list
  order. Every loser is removed from \<open>remaining\<close> and appended, one candidate at a time,
  to the flat list \<open>elimination_order\<close>. \<open>last_losers\<close> starts as \<open>None\<close>. With exact
  scores every round removes a candidate, so the recursion is well-founded; the source
  loop with float scores has no such guarantee once a score is \<open>inf\<close>.
\<close>

function stv_loop ::
  "candidate list \<Rightarrow> ballot list \<Rightarrow> candidate list \<Rightarrow> candidate list option
     \<Rightarrow> candidate list option \<times> candidate list" where
  "stv_loop [] ballots elimination_order last_losers = (last_losers, elimination_order)"
| "stv_loop (r # rs) ballots elimination_order last_losers =
     (let losers = round_losers (r # rs) ballots
      in stv_loop (filter (\<lambda>c. c \<notin> set losers) (r # rs)) ballots
           (elimination_order @ losers) (Some losers))"
  by pat_completeness auto
termination
  by (relation "measure (\<lambda>(remaining, ballots, elimination_order, last_losers). length remaining)")
     (simp_all add: round_shrinks del: filter.simps)

text \<open>
  \<open>stv\<close>: \<open>remaining = set(candidates)\<close>, then the loop. The winners are \<open>last_losers\<close>,
  which is still \<open>None\<close> when the loop body never ran.
\<close>

definition stv :: "candidate list \<Rightarrow> ballot list \<Rightarrow> candidate list option \<times> candidate list" where
  "stv candidates ballots = stv_loop (remdups candidates) ballots [] None"

text \<open>
  The removal groups of the successive rounds of the same loop: the list \<open>losers\<close> of
  each iteration, in order. The source does not store them; they serve to count rounds.
\<close>

function stv_rounds :: "candidate list \<Rightarrow> ballot list \<Rightarrow> candidate list list" where
  "stv_rounds [] ballots = []"
| "stv_rounds (r # rs) ballots =
     (let losers = round_losers (r # rs) ballots
      in losers # stv_rounds (filter (\<lambda>c. c \<notin> set losers) (r # rs)) ballots)"
  by pat_completeness auto
termination
  by (relation "measure (\<lambda>(remaining, ballots). length remaining)")
     (simp_all add: round_shrinks del: filter.simps)

section \<open>Manipulation search\<close>

text \<open>\<open>candidate_position\<close>: the index of the first tie group that contains the candidate.\<close>

fun candidate_position_from :: "nat \<Rightarrow> ranking \<Rightarrow> candidate \<Rightarrow> nat option" where
  "candidate_position_from idx [] cand = None"
| "candidate_position_from idx (grp # ranking) cand =
     (if cand \<in> set grp then Some idx else candidate_position_from (Suc idx) ranking cand)"

definition candidate_position :: "ranking \<Rightarrow> candidate \<Rightarrow> nat option" where
  "candidate_position ranking cand = candidate_position_from 0 ranking cand"

definition prefers_over :: "ranking \<Rightarrow> candidate \<Rightarrow> candidate \<Rightarrow> bool" where
  "prefers_over ranking cand1 cand2 =
     (case (candidate_position ranking cand1, candidate_position ranking cand2) of
        (None, None) \<Rightarrow> False
      | (None, Some pos2) \<Rightarrow> False
      | (Some pos1, None) \<Rightarrow> True
      | (Some pos1, Some pos2) \<Rightarrow> pos1 < pos2)"

text \<open>\<open>if c not in flat: flat.append(c)\<close>\<close>

definition append_new :: "candidate \<Rightarrow> candidate list \<Rightarrow> candidate list" where
  "append_new c flat = (if c \<in> set flat then flat else flat @ [c])"

text \<open>
  \<open>build_strategic_ballot_from_ranking\<close>. Python's \<open>flat.remove(x)\<close> deletes the first
  occurrence, \<open>flat.insert(0, x)\<close> puts \<open>x\<close> in front.
\<close>

definition build_strategic_ballot_from_ranking ::
  "ranking \<Rightarrow> candidate \<Rightarrow> candidate \<Rightarrow> candidate list \<Rightarrow> ranking" where
  "build_strategic_ballot_from_ranking ranking target winner all_candidates =
     (let flat1 = fold (\<lambda>grp flat. fold append_new grp flat) ranking [];
          flat2 = fold append_new all_candidates flat1;
          flat3 = (if target \<in> set flat2 then remove1 target flat2 else flat2);
          flat4 = target # flat3;
          flat5 = (if winner \<in> set flat4 then remove1 winner flat4 else flat4);
          flat6 = flat5 @ [winner]
      in map (\<lambda>c. [c]) flat6)"

text \<open>
  \<open>apply_manipulation\<close>: the loop over \<open>enumerate(ballots)\<close>, with the running index, then
  the strategic ballot type appended. Indices are those of \<open>enumerate\<close>, hence natural
  numbers.
\<close>

fun apply_manipulation_from :: "nat \<Rightarrow> ballot list \<Rightarrow> nat \<Rightarrow> int \<Rightarrow> ballot list" where
  "apply_manipulation_from idx [] type_index k = []"
| "apply_manipulation_from idx ((w, r) # ballots) type_index k =
     (if idx = type_index
      then (if w - k > 0 then [(w - k, r)] else [])
      else [(w, r)])
     @ apply_manipulation_from (Suc idx) ballots type_index k"

definition apply_manipulation :: "ballot list \<Rightarrow> nat \<Rightarrow> int \<Rightarrow> ranking \<Rightarrow> ballot list" where
  "apply_manipulation ballots type_index k strategic_ballot =
     apply_manipulation_from 0 ballots type_index k @ [(k, strategic_ballot)]"

text \<open>
  The six variables \<open>best_k\<close>, \<open>best_target\<close>, ... of the search are assigned together;
  they are one optional record, \<open>None\<close> while \<open>best_k is None\<close>.
\<close>

record best =
  best_k :: int
  best_target :: candidate
  best_type_index :: nat
  best_true_ranking :: ranking
  best_strategic_ballot :: ranking
  best_new_elim_order :: "candidate list"

text \<open>
  The inner loop \<open>for k in range(1, weight + 1)\<close>, over the list of the values of \<open>k\<close>
  still to try. It breaks at the first \<open>k\<close> that makes \<open>target\<close> the only winner, and
  records it when it is below \<open>best_k\<close>. \<open>len(new_winners)\<close> raises \<open>TypeError\<close> when
  \<open>stv\<close> returned \<open>None\<close> for the winners.
\<close>

fun k_loop ::
  "int list \<Rightarrow> candidate list \<Rightarrow> ballot list \<Rightarrow> candidate \<Rightarrow> nat \<Rightarrow> ranking \<Rightarrow> ranking
     \<Rightarrow> best option \<Rightarrow> error + best option" where
  "k_loop [] candidates ballots target type_index ranking strategic_ballot best = Inr best"
| "k_loop (k # ks) candidates ballots target type_index ranking strategic_ballot best =
     (let manipulated_ballots = apply_manipulation ballots type_index k strategic_ballot;
          (new_winners, new_elim_order) = stv candidates manipulated_ballots
      in case new_winners of
           None \<Rightarrow> Inl TypeError
         | Some ws \<Rightarrow>
             if length ws = 1 \<and> ws ! 0 = target
             then Inr (if (case best of None \<Rightarrow> True | Some b \<Rightarrow> k < best_k b)
                       then Some \<lparr>best_k = k, best_target = target,
                                  best_type_index = type_index, best_true_ranking = ranking,
                                  best_strategic_ballot = strategic_ballot,
                                  best_new_elim_order = new_elim_order\<rparr>
                       else best)
             else k_loop ks candidates ballots target type_index ranking strategic_ballot best)"

text \<open>The middle loop \<open>for type_index, (weight, ranking) in enumerate(ballots)\<close>.\<close>

fun type_loop ::
  "(nat \<times> ballot) list \<Rightarrow> candidate list \<Rightarrow> ballot list \<Rightarrow> candidate \<Rightarrow> candidate
     \<Rightarrow> best option \<Rightarrow> error + best option" where
  "type_loop [] candidates ballots target orig_winner best = Inr best"
| "type_loop ((type_index, (weight, ranking)) # rest) candidates ballots target orig_winner best =
     (if \<not> prefers_over ranking target orig_winner
      then type_loop rest candidates ballots target orig_winner best
      else
        let strategic_ballot =
              build_strategic_ballot_from_ranking ranking target orig_winner candidates
        in case k_loop [1..weight] candidates ballots target type_index ranking
                  strategic_ballot best of
             Inl e \<Rightarrow> Inl e
           | Inr best' \<Rightarrow> type_loop rest candidates ballots target orig_winner best')"

text \<open>The outer loop \<open>for target in candidates\<close>.\<close>

fun target_loop ::
  "candidate list \<Rightarrow> candidate list \<Rightarrow> ballot list \<Rightarrow> candidate \<Rightarrow> best option
     \<Rightarrow> error + best option" where
  "target_loop [] candidates ballots orig_winner best = Inr best"
| "target_loop (target # targets) candidates ballots orig_winner best =
     (if target = orig_winner
      then target_loop targets candidates ballots orig_winner best
      else
        case type_loop (enumerate 0 ballots) candidates ballots target orig_winner best of
          Inl e \<Rightarrow> Inl e
        | Inr best' \<Rightarrow> target_loop targets candidates ballots orig_winner best')"

text \<open>The dictionary that \<open>find_smallest_manipulating_coalition\<close> returns.\<close>

record manipulation =
  orig_winner :: candidate
  coalition_size :: int
  target :: candidate
  type_index :: nat
  true_ranking :: ranking
  strategic_ballot :: ranking
  new_elim_order :: "candidate list"

text \<open>
  \<open>find_smallest_manipulating_coalition\<close>: \<open>Inl TypeError\<close> is the exception raised by
  \<open>len(orig_winners)\<close> on \<open>None\<close>, \<open>Inr None\<close> is the returned \<open>None\<close>, \<open>Inr (Some m)\<close> the
  returned dictionary. The message printed for several winners is not modelled.
\<close>

definition find_smallest_manipulating_coalition ::
  "candidate list \<Rightarrow> ballot list \<Rightarrow> error + manipulation option" where
  "find_smallest_manipulating_coalition candidates ballots =
     (case fst (stv candidates ballots) of
        None \<Rightarrow> Inl TypeError
      | Some orig_winners \<Rightarrow>
          if length orig_winners \<noteq> 1 then Inr None
          else
            let ow = orig_winners ! 0
            in (case target_loop candidates candidates ballots ow None of
                  Inl e \<Rightarrow> Inl e
                | Inr None \<Rightarrow> Inr None
                | Inr (Some b) \<Rightarrow>
                    Inr (Some \<lparr>orig_winner = ow, coalition_size = best_k b,
                               target = best_target b, type_index = best_type_index b,
                               true_ranking = best_true_ranking b,
                               strategic_ballot = best_strategic_ballot b,
                               new_elim_order = best_new_elim_order b\<rparr>)))"

section \<open>Notions used to state the properties\<close>

text \<open>
  A ballot is exhausted for a set of remaining candidates when no tie group of its ranking
  contains a remaining candidate. The active weight of a round is the total weight of
  the ballots that are not exhausted.
\<close>

definition exhausted :: "candidate list \<Rightarrow> ranking \<Rightarrow> bool" where
  "exhausted remaining ranking = (\<not> (\<exists>grp \<in> set ranking. \<exists>c \<in> set grp. c \<in> set remaining))"

definition active_weight :: "candidate list \<Rightarrow> ballot list \<Rightarrow> rat" where
  "active_weight remaining ballots =
     (\<Sum>b \<leftarrow> ballots. if exhausted remaining (snd b) then 0 else of_int (fst b))"

definition total_weight :: "ballot list \<Rightarrow> int" where
  "total_weight ballots = sum_list (map fst ballots)"

definition positive_weights :: "ballot list \<Rightarrow> bool" where
  "positive_weights ballots = list_all (\<lambda>b. 0 < fst b) ballots"

text \<open>
  The strategic ranking in the words of the specification: the original ranking
  flattened group by group, each candidate kept at its first occurrence; the candidates
  of the full set that the ranking omits appended in the order of the full set; the
  target moved to the front and the incumbent winner to the end, the others keeping
  their relative order; one candidate per tie group.
\<close>

fun first_occurrences :: "candidate list \<Rightarrow> candidate list" where
  "first_occurrences [] = []"
| "first_occurrences (c # cs) = c # filter (\<lambda>d. d \<noteq> c) (first_occurrences cs)"

definition strategic_ranking_spec ::
  "ranking \<Rightarrow> candidate \<Rightarrow> candidate \<Rightarrow> candidate list \<Rightarrow> ranking" where
  "strategic_ranking_spec original tgt incumbent full_set =
     (let flattened = first_occurrences (concat original);
          absent = filter (\<lambda>c. c \<notin> set flattened) full_set;
          others = filter (\<lambda>c. c \<noteq> tgt \<and> c \<noteq> incumbent) (flattened @ absent)
      in map (\<lambda>c. [c]) ([tgt] @ others @ [incumbent]))"

text \<open>The ballots of the end-to-end example.\<close>

definition example_ballots :: "ballot list" where
  "example_ballots = [(3, [[1], [2], [3]]), (2, [[2], [1], [3]]), (1, [[3], [1], [2]])]"

text \<open>
  A coalition of \<open>k\<close> voters of ballot type \<open>i\<close> wins for a target when, after the
  substitution of the strategic ranking built for that target and that type, the
  tabulation returns the target as the only winner.
\<close>

definition coalition_wins ::
  "candidate list \<Rightarrow> ballot list \<Rightarrow> candidate \<Rightarrow> candidate \<Rightarrow> nat \<Rightarrow> int \<Rightarrow> bool" where
  "coalition_wins candidates ballots incumbent tgt i k =
     (fst (stv candidates
            (apply_manipulation ballots i k
               (build_strategic_ballot_from_ranking (snd (ballots ! i)) tgt incumbent candidates)))
      = Some [tgt])"

text \<open>
  The invariant of the search. A recorded best result is valid when it names an eligible
  target and type, a coalition size within the weight of the type, and the tabulation of
  its substitution; the best result is bounded by \<open>k\<close> when it exists and its size is at
  most \<open>k\<close>.
\<close>

definition valid_best :: "candidate list \<Rightarrow> ballot list \<Rightarrow> candidate \<Rightarrow> best \<Rightarrow> bool" where
  "valid_best candidates ballots incumbent b =
     (best_target b \<in> set candidates \<and> best_target b \<noteq> incumbent
      \<and> best_type_index b < length ballots
      \<and> prefers_over (snd (ballots ! best_type_index b)) (best_target b) incumbent
      \<and> 1 \<le> best_k b \<and> best_k b \<le> fst (ballots ! best_type_index b)
      \<and> best_true_ranking b = snd (ballots ! best_type_index b)
      \<and> best_strategic_ballot b =
          build_strategic_ballot_from_ranking (snd (ballots ! best_type_index b))
            (best_target b) incumbent candidates
      \<and> stv candidates
           (apply_manipulation ballots (best_type_index b) (best_k b) (best_strategic_ballot b))
          = (Some [best_target b], best_new_elim_order b))"

definition bounded :: "best option \<Rightarrow> int \<Rightarrow> bool" where
  "bounded best k = (case best of None \<Rightarrow> False | Some b \<Rightarrow> best_k b \<le> k)"

definition valid_opt :: "candidate list \<Rightarrow> ballot list \<Rightarrow> candidate \<Rightarrow> best option \<Rightarrow> bool" where
  "valid_opt candidates ballots incumbent best =
     (case best of None \<Rightarrow> True | Some b \<Rightarrow> valid_best candidates ballots incumbent b)"

text \<open>An election in which two voters of the first type can make candidate 2 win.\<close>

definition manipulation_ballots :: "ballot list" where
  "manipulation_ballots = [(3, [[1], [2], [3]]), (1, [[2], [3], [1]]), (3, [[3]])]"

section \<open>The coalition substitution\<close>

lemma apply_manipulation_from_other:
  "i < idx \<Longrightarrow> apply_manipulation_from idx ballots i k = ballots"
  by (induction ballots arbitrary: idx) auto

lemma apply_manipulation_from_split:
  assumes "i < length ballots"
  shows "apply_manipulation_from idx ballots (idx + i) k =
           take i ballots
           @ (if fst (ballots ! i) - k > 0 then [(fst (ballots ! i) - k, snd (ballots ! i))] else [])
           @ drop (Suc i) ballots"
  using assms
proof (induction ballots arbitrary: idx i)
  case Nil
  then show ?case by simp
next
  case (Cons b ballots)
  obtain w r where b: "b = (w, r)" by (cases b)
  show ?case
  proof (cases i)
    case 0
    with b show ?thesis by (simp add: apply_manipulation_from_other)
  next
    case (Suc j)
    with Cons.prems have "j < length ballots" by simp
    from Cons.IH [OF this, of "Suc idx"] Suc b show ?thesis by simp
  qed
qed

lemma apply_manipulation_split:
  assumes "i < length ballots"
  shows "apply_manipulation ballots i k s =
           take i ballots
           @ (if fst (ballots ! i) - k > 0 then [(fst (ballots ! i) - k, snd (ballots ! i))] else [])
           @ drop (Suc i) ballots @ [(k, s)]"
  using apply_manipulation_from_split [OF assms, of 0 k]
  by (simp add: apply_manipulation_def)

text \<open>
  C9. For a ballot-type index \<open>i\<close> within bounds, \<open>apply_manipulation\<close> returns the ballot
  types before \<open>i\<close> unchanged and in order, then the type \<open>i\<close> with its weight reduced by
  \<open>k\<close> (dropped when the remainder is zero or negative), then the types after \<open>i\<close>
  unchanged and in order, then one new type of weight \<open>k\<close> with the strategic ranking.
\<close>

theorem apply_manipulation_frame:
  assumes "i < length ballots"
  shows "apply_manipulation ballots i k s =
           take i ballots
           @ (if fst (ballots ! i) - k > 0 then [(fst (ballots ! i) - k, snd (ballots ! i))] else [])
           @ drop (Suc i) ballots @ [(k, s)]"
  using assms by (rule apply_manipulation_split)

theorem apply_manipulation_frame_witness:
  "apply_manipulation [(3, [[1]]), (2, [[2]]), (4, [[3]])] 1 2 [[7]]
     = [(3, [[1]]), (4, [[3]]), (2, [[7]])]
   \<and> apply_manipulation [(3, [[1]]), (2, [[2]]), (4, [[3]])] 1 1 [[7]]
     = [(3, [[1]]), (1, [[2]]), (4, [[3]]), (1, [[7]])]"
  using apply_manipulation_frame [of 1 "[(3, [[1]]), (2, [[2]]), (4, [[3]])]" 2 "[[7]]"]
        apply_manipulation_frame [of 1 "[(3, [[1]]), (2, [[2]]), (4, [[3]])]" 1 "[[7]]"]
  by simp

text \<open>
  C10. When all weights are positive, the index is within bounds and \<open>k\<close> lies between 1
  and the weight of the type at that index, the ballot list returned by
  \<open>apply_manipulation\<close> has positive weights only and the same total weight as the input.
\<close>

theorem apply_manipulation_electorate:
  assumes pos: "positive_weights ballots"
    and i: "i < length ballots"
    and k: "1 \<le> k" "k \<le> fst (ballots ! i)"
  shows "positive_weights (apply_manipulation ballots i k s)
         \<and> total_weight (apply_manipulation ballots i k s) = total_weight ballots"
proof -
  have split: "ballots = take i ballots @ ballots ! i # drop (Suc i) ballots"
    using i by (simp add: id_take_nth_drop)
  have tw: "total_weight ballots =
      total_weight (take i ballots) + fst (ballots ! i) + total_weight (drop (Suc i) ballots)"
    unfolding total_weight_def by (subst split) simp
  have "positive_weights (take i ballots @ ballots ! i # drop (Suc i) ballots)"
    using pos split by simp
  then have pw: "positive_weights (take i ballots)" "positive_weights (drop (Suc i) ballots)"
    by (simp_all add: positive_weights_def)
  show ?thesis
    using pw k tw
    by (simp add: apply_manipulation_split [OF i] positive_weights_def total_weight_def)
qed

theorem apply_manipulation_electorate_witness:
  "positive_weights (apply_manipulation [(3, [[1]]), (2, [[2]]), (4, [[3]])] 1 2 [[7]])
   \<and> total_weight (apply_manipulation [(3, [[1]]), (2, [[2]]), (4, [[3]])] 1 2 [[7]]) = 9"
  using apply_manipulation_electorate [of "[(3, [[1]]), (2, [[2]]), (4, [[3]])]" 1 2 "[[7]]"]
  by (simp add: positive_weights_def total_weight_def)

section \<open>The strategic ranking\<close>

lemma set_first_occurrences [simp]: "set (first_occurrences cs) = set cs"
  by (induction cs) auto

lemma distinct_first_occurrences [simp]: "distinct (first_occurrences cs)"
  by (induction cs) auto

lemma first_occurrences_distinct: "distinct cs \<Longrightarrow> first_occurrences cs = cs"
  by (induction cs) (auto simp: filter_id_conv)

lemma fold_append_new:
  "fold append_new cs flat = flat @ filter (\<lambda>c. c \<notin> set flat) (first_occurrences cs)"
proof (induction cs arbitrary: flat)
  case Nil
  then show ?case by simp
next
  case (Cons c cs)
  show ?case
  proof (cases "c \<in> set flat")
    case True
    then have "filter (\<lambda>d. d \<notin> set flat) (filter (\<lambda>d. d \<noteq> c) (first_occurrences cs))
        = filter (\<lambda>d. d \<notin> set flat) (first_occurrences cs)"
      by (auto intro: filter_cong)
    with True Cons.IH [of flat] show ?thesis
      by (simp add: append_new_def)
  next
    case False
    have "filter (\<lambda>d. d \<notin> set (flat @ [c])) (first_occurrences cs)
        = filter (\<lambda>d. d \<notin> set flat) (filter (\<lambda>d. d \<noteq> c) (first_occurrences cs))"
      by (auto intro: filter_cong)
    with False Cons.IH [of "flat @ [c]"] show ?thesis
      by (simp add: append_new_def)
  qed
qed

lemma fold_groups_append_new:
  "fold (\<lambda>grp flat. fold append_new grp flat) ranking flat = fold append_new (concat ranking) flat"
  by (induction ranking arbitrary: flat) simp_all

lemma remove_if_present:
  "distinct xs \<Longrightarrow> (if x \<in> set xs then remove1 x xs else xs) = filter (\<lambda>c. c \<noteq> x) xs"
  by (induction xs) (auto simp: filter_id_conv)

text \<open>
  C7. For a target \<open>t\<close> distinct from the incumbent winner \<open>w\<close> and a full candidate set
  given in its canonical order, \<open>build_strategic_ballot_from_ranking\<close> returns the
  strategic ranking of the specification: singleton tie groups, the target first, the
  incumbent last, in between the flattened original ranking followed by the absent
  candidates, without the target and the incumbent. The instance of the specification,
  ranking \<open>[[2],[1,3]]\<close>, target 3, incumbent 2, full set \<open>{1,2,3,4}\<close>, is the witness.
\<close>

theorem build_strategic_ballot_refines:
  assumes "t \<noteq> w" and "distinct full_set"
  shows "build_strategic_ballot_from_ranking ranking t w full_set =
         strategic_ranking_spec ranking t w full_set"
proof -
  define flat2 where "flat2 = first_occurrences (concat ranking)
       @ filter (\<lambda>c. c \<notin> set (first_occurrences (concat ranking))) full_set"
  have flat2: "fold append_new full_set
        (fold (\<lambda>grp flat. fold append_new grp flat) ranking []) = flat2"
    unfolding fold_groups_append_new
    using assms(2)
    by (simp add: fold_append_new first_occurrences_distinct flat2_def)
  have d2: "distinct flat2"
    using assms(2) by (auto simp: flat2_def)
  define flat3 where "flat3 = filter (\<lambda>c. c \<noteq> t) flat2"
  have f3: "(if t \<in> set flat2 then remove1 t flat2 else flat2) = flat3"
    using d2 by (simp add: remove_if_present flat3_def)
  have d4: "distinct (t # flat3)"
    using d2 by (simp add: flat3_def)
  have f5: "(if w \<in> set (t # flat3) then remove1 w (t # flat3) else t # flat3)
      = t # filter (\<lambda>c. c \<noteq> t \<and> c \<noteq> w) flat2"
    using assms(1) by (simp only: remove_if_present [OF d4]) (auto simp: flat3_def intro: filter_cong)
  show ?thesis
    unfolding build_strategic_ballot_from_ranking_def strategic_ranking_spec_def Let_def
      flat2 f3 f5
    by (simp add: flat2_def)
qed

theorem build_strategic_ballot_refines_witness:
  "build_strategic_ballot_from_ranking [[2], [1, 3]] 3 2 [1, 2, 3, 4] = [[3], [1], [4], [2]]"
  using build_strategic_ballot_refines [of 3 2 "[1, 2, 3, 4]" "[[2], [1, 3]]"]
  by (simp add: strategic_ranking_spec_def)

section \<open>Tabulation: concrete elections\<close>

text \<open>
  C6. For an empty candidate list the loop body never runs: \<open>stv\<close> returns \<open>None\<close> for
  the winners, not the empty list, together with the empty elimination order.
\<close>

theorem stv_empty_candidates:
  "stv [] ballots = (None, [])"
  by (simp add: stv_def)

text \<open>
  C5, as the source computes it. On candidates \<open>{1,2,3}\<close> and the example ballots, round 1
  has scores 3, 2, 1 and removes 3; round 2 has scores 4, 2 and removes 2; round 3 has
  the single score 6 and removes 1. The winners are \<open>[1]\<close> and the elimination order is
  the flat list \<open>[3, 2, 1]\<close>, which includes the winner.
\<close>

theorem stv_example:
  "map (\<lambda>c. the (plurality_scores [1, 2, 3] example_ballots c)) [1, 2, 3] = [3, 2, 1]
   \<and> round_losers [1, 2, 3] example_ballots = [3]
   \<and> map (\<lambda>c. the (plurality_scores [1, 2] example_ballots c)) [1, 2] = [4, 2]
   \<and> round_losers [1, 2] example_ballots = [2]
   \<and> map (\<lambda>c. the (plurality_scores [1] example_ballots c)) [1] = [6]
   \<and> round_losers [1] example_ballots = [1]
   \<and> stv [1, 2, 3] example_ballots = (Some [1], [3, 2, 1])"
  unfolding example_ballots_def by code_simp

text \<open>
  The elimination order of the example is not \<open>[[3],[2]]\<close>, neither as a list of groups
  nor flattened: the removal groups are \<open>[[3],[2],[1]]\<close>.
\<close>

theorem stv_example_counterexample:
  "snd (stv [1, 2, 3] example_ballots) \<noteq> concat [[3], [2]]
   \<and> stv_rounds (remdups [1, 2, 3]) example_ballots \<noteq> [[3], [2]]
   \<and> map (\<lambda>c. [c]) (snd (stv [1, 2, 3] example_ballots)) \<noteq> [[3], [2]]"
  unfolding example_ballots_def by code_simp

section \<open>Scores\<close>

text \<open>
  The dictionary of scores always has the remaining candidates as its keys, so every
  lookup \<open>scores[c]\<close> of the source finds its key.
\<close>

lemma add_shares_dom: "set g \<subseteq> dom m \<Longrightarrow> dom (add_shares m g share) = dom m"
proof (induction g arbitrary: m)
  case Nil
  then show ?case by simp
next
  case (Cons d ds)
  let ?m = "m(d \<mapsto> the (m d) + share)"
  from Cons.prems have same: "dom ?m = dom m"
    by auto
  with Cons.prems have "set ds \<subseteq> dom ?m"
    by simp
  then have "dom (add_shares ?m ds share) = dom ?m"
    by (rule Cons.IH)
  with same show ?case
    by (simp only: add_shares.simps)
qed

lemma ballot_scores_dom:
  assumes "dom m = set remaining"
  shows "dom (ballot_scores remaining m weight ranking) = set remaining"
proof (induction ranking)
  case Nil
  with assms show ?case by simp
next
  case (Cons grp ranking)
  have "set (filter (\<lambda>c. c \<in> set remaining) grp) \<subseteq> dom m"
    using assms by auto
  then have "dom (add_shares m (filter (\<lambda>c. c \<in> set remaining) grp) share) = set remaining"
    for share
    using assms by (simp only: add_shares_dom)
  with Cons.IH show ?case
    by (simp add: Let_def)
qed

lemma scores_loop_dom:
  "dom m = set remaining \<Longrightarrow> dom (scores_loop remaining m ballots) = set remaining"
proof (induction ballots arbitrary: m)
  case Nil
  then show ?case by simp
next
  case (Cons b ballots)
  obtain weight ranking where b: "b = (weight, ranking)"
    by (cases b)
  show ?case
    unfolding b scores_loop.simps
    by (rule Cons.IH) (rule ballot_scores_dom [OF Cons.prems])
qed

lemma plurality_scores_dom: "dom (plurality_scores remaining ballots) = set remaining"
  unfolding plurality_scores_def by (rule scores_loop_dom) (auto split: if_splits)

lemma add_shares_sum:
  assumes "finite S" and "set g \<subseteq> S"
  shows "(\<Sum>c \<in> S. the (add_shares m g share c)) = (\<Sum>c \<in> S. the (m c)) + of_nat (length g) * share"
  using assms(2)
proof (induction g arbitrary: m)
  case Nil
  then show ?case by simp
next
  case (Cons d ds)
  then have d: "d \<in> S" and ds: "set ds \<subseteq> S"
    by simp_all
  let ?m = "m(d \<mapsto> the (m d) + share)"
  have "(\<Sum>c \<in> S. the (?m c)) = the (?m d) + (\<Sum>c \<in> S - {d}. the (?m c))"
    using assms(1) d by (rule sum.remove)
  also have "(\<Sum>c \<in> S - {d}. the (?m c)) = (\<Sum>c \<in> S - {d}. the (m c))"
    by (rule sum.cong) simp_all
  also have "the (?m d) = the (m d) + share"
    by simp
  finally have "(\<Sum>c \<in> S. the (?m c)) = (the (m d) + (\<Sum>c \<in> S - {d}. the (m c))) + share"
    by simp
  also have "the (m d) + (\<Sum>c \<in> S - {d}. the (m c)) = (\<Sum>c \<in> S. the (m c))"
    using assms(1) d by (rule sum.remove [symmetric])
  finally have step: "(\<Sum>c \<in> S. the (?m c)) = (\<Sum>c \<in> S. the (m c)) + share" .
  have "(\<Sum>c \<in> S. the (add_shares m (d # ds) share c))
      = (\<Sum>c \<in> S. the (add_shares ?m ds share c))"
    by simp
  also have "\<dots> = (\<Sum>c \<in> S. the (?m c)) + of_nat (length ds) * share"
    by (rule Cons.IH [OF ds])
  also have "\<dots> = (\<Sum>c \<in> S. the (m c)) + of_nat (length (d # ds)) * share"
    unfolding step by (simp add: algebra_simps)
  finally show ?case .
qed

lemma ballot_scores_sum:
  "(\<Sum>c \<in> set remaining. the (ballot_scores remaining m weight ranking c))
   = (\<Sum>c \<in> set remaining. the (m c))
     + (if exhausted remaining ranking then 0 else of_int weight)"
proof (induction ranking)
  case Nil
  then show ?case by (simp add: exhausted_def)
next
  case (Cons grp ranking)
  let ?g = "filter (\<lambda>c. c \<in> set remaining) grp"
  show ?case
  proof (cases "?g = []")
    case True
    then have "\<not> (\<exists>c \<in> set grp. c \<in> set remaining)"
      by (simp add: filter_empty_conv)
    then have "exhausted remaining (grp # ranking) = exhausted remaining ranking"
      by (simp add: exhausted_def)
    with True Cons.IH show ?thesis
      by simp
  next
    case False
    then have "\<exists>c \<in> set grp. c \<in> set remaining"
      by (simp add: filter_empty_conv)
    then have ne: "\<not> exhausted remaining (grp # ranking)"
      by (simp add: exhausted_def)
    have len: "of_nat (length ?g) \<noteq> (0 :: rat)"
      using False by simp
    have "(\<Sum>c \<in> set remaining. the (add_shares m ?g (of_int weight / of_nat (length ?g)) c))
        = (\<Sum>c \<in> set remaining. the (m c)) + of_nat (length ?g) * (of_int weight / of_nat (length ?g))"
      by (rule add_shares_sum) auto
    also have "of_nat (length ?g) * (of_int weight / of_nat (length ?g)) = (of_int weight :: rat)"
      using len by simp
    finally show ?thesis
      using False ne by (simp add: Let_def)
  qed
qed

lemma scores_loop_sum:
  "(\<Sum>c \<in> set remaining. the (scores_loop remaining m ballots c))
   = (\<Sum>c \<in> set remaining. the (m c)) + active_weight remaining ballots"
proof (induction ballots arbitrary: m)
  case Nil
  then show ?case by (simp add: active_weight_def)
next
  case (Cons b ballots)
  obtain weight ranking where b: "b = (weight, ranking)"
    by (cases b)
  show ?case
    unfolding b scores_loop.simps Cons.IH ballot_scores_sum
    by (simp add: active_weight_def)
qed

text \<open>
  Score conservation in exact arithmetic. The exact scores of the remaining candidates
  add up to the total weight of the ballots that are not exhausted: a ballot that is not
  exhausted gives \<open>weight / n\<close> to each of the \<open>n\<close> remaining candidates of its first
  non-empty group, and an exhausted ballot gives nothing. The float scores of the source
  satisfy this only up to rounding: a weight of 10 split over three candidates gives
  three times 3.3333333333333335, and a single weight \<open>2^53 + 1\<close> gives the score \<open>2^53\<close>.
\<close>

lemma score_conservation_exact:
  "(\<Sum>c \<in> set remaining. the (plurality_scores remaining ballots c))
   = active_weight remaining ballots"
  unfolding plurality_scores_def scores_loop_sum by simp

lemma score_conservation_exact_example:
  "(\<Sum>c \<in> set [1, 2, 3].
      the (plurality_scores [1, 2, 3] [(10, [[1, 2]]), (3, [[7]]), (2, [[9], [3, 7]])] c)) = 12
   \<and> active_weight [1, 2, 3] [(10, [[1, 2]]), (3, [[7]]), (2, [[9], [3, 7]])] = 12
   \<and> the (plurality_scores [1, 2, 3] [(10, [[1, 2]]), (3, [[7]]), (2, [[9], [3, 7]])] 1) = 5"
proof -
  have "active_weight [1, 2, 3] [(10, [[1, 2]]), (3, [[7]]), (2, [[9], [3, 7]])] = 12"
    by code_simp
  moreover have
    "the (plurality_scores [1, 2, 3] [(10, [[1, 2]]), (3, [[7]]), (2, [[9], [3, 7]])] 1) = 5"
    by code_simp
  ultimately show ?thesis
    using score_conservation_exact [of "[1, 2, 3]" "[(10, [[1, 2]]), (3, [[7]]), (2, [[9], [3, 7]])]"]
    by simp
qed

section \<open>Rounds of the tabulation\<close>

lemma round_losers_subset: "set (round_losers remaining ballots) \<subseteq> set remaining"
  by (auto simp: round_losers_def Let_def)

lemma round_losers_distinct: "distinct remaining \<Longrightarrow> distinct (round_losers remaining ballots)"
  by (simp add: round_losers_def Let_def)

lemma round_losers_not_Nil: "remaining \<noteq> [] \<Longrightarrow> round_losers remaining ballots \<noteq> []"
  using round_losers_nonempty [of remaining ballots] by auto

lemma stv_loop_rounds:
  "stv_loop remaining ballots elimination_order last_losers =
     ((case stv_rounds remaining ballots of [] \<Rightarrow> last_losers | g # gs \<Rightarrow> Some (last (g # gs))),
      elimination_order @ concat (stv_rounds remaining ballots))"
proof (induction remaining ballots elimination_order last_losers rule: stv_loop.induct)
  case (1 ballots elimination_order last_losers)
  show ?case by simp
next
  case (2 r rs ballots elimination_order last_losers)
  show ?case
    using "2.IH" [OF refl]
    by (simp add: Let_def split: list.splits del: filter.simps)
qed

lemma stv_rounds_set: "set (concat (stv_rounds remaining ballots)) = set remaining"
proof (induction remaining ballots rule: stv_rounds.induct)
  case (1 ballots)
  show ?case by simp
next
  case (2 r rs ballots)
  have "set (round_losers (r # rs) ballots) \<subseteq> set (r # rs)"
    by (rule round_losers_subset)
  then show ?case
    using "2.IH" [OF refl]
    by (auto simp: Let_def simp del: filter.simps)
qed

lemma stv_rounds_distinct:
  "distinct remaining \<Longrightarrow> distinct (concat (stv_rounds remaining ballots))"
proof (induction remaining ballots rule: stv_rounds.induct)
  case (1 ballots)
  show ?case by simp
next
  case (2 r rs ballots)
  let ?losers = "round_losers (r # rs) ballots"
  let ?rest = "filter (\<lambda>c. c \<notin> set ?losers) (r # rs)"
  have "distinct ?rest"
    using "2.prems" by (simp only: distinct_filter)
  then have "distinct (concat (stv_rounds ?rest ballots))"
    by (rule "2.IH" [OF refl])
  moreover have "distinct ?losers"
    using "2.prems" by (rule round_losers_distinct)
  moreover have "set ?losers \<inter> set (concat (stv_rounds ?rest ballots)) = {}"
    unfolding stv_rounds_set by auto
  ultimately show ?case
    by (simp add: Let_def del: filter.simps)
qed

lemma stv_rounds_nonempty_groups: "[] \<notin> set (stv_rounds remaining ballots)"
proof (induction remaining ballots rule: stv_rounds.induct)
  case (1 ballots)
  show ?case by simp
next
  case (2 r rs ballots)
  have "round_losers (r # rs) ballots \<noteq> []"
    by (rule round_losers_not_Nil) simp
  then show ?case
    using "2.IH" [OF refl] by (auto simp: Let_def simp del: filter.simps)
qed

lemma stv_rounds_length: "length (stv_rounds remaining ballots) \<le> length remaining"
proof (induction remaining ballots rule: stv_rounds.induct)
  case (1 ballots)
  show ?case by simp
next
  case (2 r rs ballots)
  let ?losers = "round_losers (r # rs) ballots"
  have "length (stv_rounds (filter (\<lambda>c. c \<notin> set ?losers) (r # rs)) ballots)
      \<le> length (filter (\<lambda>c. c \<notin> set ?losers) (r # rs))"
    by (rule "2.IH" [OF refl])
  also have "\<dots> < Suc (length rs)"
    by (rule round_shrinks)
  finally show ?case
    by (simp add: Let_def del: filter.simps)
qed

lemma stv_rounds_Nil_iff: "stv_rounds remaining ballots = [] \<longleftrightarrow> remaining = []"
  by (cases remaining) (simp_all add: Let_def del: filter.simps)

text \<open>
  Coverage with exact scores. The elimination order has no duplicates and contains
  exactly the candidates of the input; it is the concatenation of the removal groups of
  the rounds; no group is empty, and there are at most as many rounds as candidates.
  The source loop removes a candidate in every round for the same reason as long as
  its float scores stay finite: the candidate with the least score passes the tolerance
  test. On the candidates \<open>{1}\<close> with two ballots of weight \<open>10**308\<close> for candidate 1 the
  source has the score \<open>inf\<close>, finds no loser and repeats the round forever.
\<close>

lemma stv_exact_scores_covers:
  "distinct (snd (stv candidates ballots))
   \<and> set (snd (stv candidates ballots)) = set candidates
   \<and> snd (stv candidates ballots) = concat (stv_rounds (remdups candidates) ballots)
   \<and> [] \<notin> set (stv_rounds (remdups candidates) ballots)
   \<and> length (stv_rounds (remdups candidates) ballots) \<le> card (set candidates)"
proof -
  let ?gs = "stv_rounds (remdups candidates) ballots"
  have order: "snd (stv candidates ballots) = concat ?gs"
    by (simp add: stv_def stv_loop_rounds)
  have "distinct (concat ?gs)"
    by (rule stv_rounds_distinct) simp
  moreover have "set (concat ?gs) = set candidates"
    unfolding stv_rounds_set by simp
  moreover have "[] \<notin> set ?gs"
    by (rule stv_rounds_nonempty_groups)
  moreover have "length ?gs \<le> card (set candidates)"
    using stv_rounds_length [of "remdups candidates" ballots] by (simp add: card_set)
  ultimately show ?thesis
    unfolding order by blast
qed

lemma stv_exact_scores_covers_example:
  "snd (stv [1, 2, 3] [(2, [[3]])]) = [1, 2, 3]
   \<and> stv_rounds (remdups [1, 2, 3]) [(2, [[3]])] = [[1, 2], [3]]
   \<and> distinct (snd (stv [1, 2, 3] [(2, [[3]])]))
   \<and> length (stv_rounds (remdups [1, 2, 3]) [(2, [[3]])]) \<le> card (set [1, 2, 3 :: int])"
proof -
  have "stv_rounds (remdups [1, 2, 3]) [(2, [[3]])] = [[1, 2], [3]]"
    by code_simp
  with stv_exact_scores_covers [of "[1, 2, 3]" "[(2, [[3]])]"] show ?thesis
    by simp
qed

text \<open>
  C2, as the source computes it. For a non-empty candidate list the winners are the
  removal group of the last round, which is not empty. The elimination order is flat:
  the candidates of a group are appended one by one, so the order is the concatenation
  of the groups and ends with the winners.
\<close>

theorem stv_winners_last_removed:
  assumes "candidates \<noteq> []"
  shows "fst (stv candidates ballots) = Some (last (stv_rounds (remdups candidates) ballots))
         \<and> last (stv_rounds (remdups candidates) ballots) \<noteq> []
         \<and> snd (stv candidates ballots)
             = concat (butlast (stv_rounds (remdups candidates) ballots))
               @ last (stv_rounds (remdups candidates) ballots)"
proof -
  let ?gs = "stv_rounds (remdups candidates) ballots"
  have ne: "?gs \<noteq> []"
    using assms by (simp add: stv_rounds_Nil_iff)
  then have "last ?gs \<in> set ?gs"
    by simp
  then have "last ?gs \<noteq> []"
    using stv_rounds_nonempty_groups [of "remdups candidates" ballots] by metis
  moreover have "fst (stv candidates ballots) = Some (last ?gs)"
    using ne by (simp add: stv_def stv_loop_rounds split: list.splits)
  moreover have "concat ?gs = concat (butlast ?gs) @ last ?gs"
    using ne by (metis append_butlast_last_id concat.simps concat_append append_Nil2)
  ultimately show ?thesis
    by (simp add: stv_def stv_loop_rounds)
qed

theorem stv_winners_last_removed_witness:
  "fst (stv [1, 2, 3] [(2, [[3]])]) = Some [3]
   \<and> stv_rounds (remdups [1, 2, 3]) [(2, [[3]])] = [[1, 2], [3]]
   \<and> snd (stv [1, 2, 3] [(2, [[3]])]) = [1, 2, 3]"
proof -
  have "stv_rounds (remdups [1, 2, 3]) [(2, [[3]])] = [[1, 2], [3]]"
    by code_simp
  with stv_winners_last_removed [of "[1, 2, 3]" "[(2, [[3]])]"] show ?thesis
    by simp
qed

text \<open>
  With candidates \<open>{1,2}\<close> and no ballots, one round removes both candidates. The
  elimination order then has two entries for one round, and its last entry is a single
  candidate, not the group of the winners.
\<close>

theorem stv_groups_counterexample:
  "fst (stv [1, 2] []) = Some [1, 2]
   \<and> snd (stv [1, 2] []) = [1, 2]
   \<and> stv_rounds (remdups [1, 2]) [] = [[1, 2]]
   \<and> length (snd (stv [1, 2] [])) \<noteq> length (stv_rounds (remdups [1, 2]) [])
   \<and> set (the (fst (stv [1, 2] []))) \<noteq> {last (snd (stv [1, 2] []))}"
  by code_simp


section \<open>The search for the smallest coalition\<close>

lemma stv_winners_Some:
  assumes "candidates \<noteq> []"
  shows "\<exists>ws. fst (stv candidates ballots) = Some ws"
  using assms
  by (cases "stv_rounds (remdups candidates) ballots")
     (simp_all add: stv_def stv_loop_rounds stv_rounds_Nil_iff)

lemma sole_winner_iff: "length ws = Suc 0 \<and> ws ! 0 = t \<longleftrightarrow> ws = [t]"
  by (cases ws) auto

lemma k_loop_closed:
  assumes "candidates \<noteq> []"
  shows "k_loop ks candidates ballots t i r s best =
    Inr (case find (\<lambda>k. fst (stv candidates (apply_manipulation ballots i k s)) = Some [t]) ks of
           None \<Rightarrow> best
         | Some k \<Rightarrow>
             if (case best of None \<Rightarrow> True | Some b \<Rightarrow> k < best_k b)
             then Some \<lparr>best_k = k, best_target = t, best_type_index = i,
                        best_true_ranking = r, best_strategic_ballot = s,
                        best_new_elim_order = snd (stv candidates (apply_manipulation ballots i k s))\<rparr>
             else best)"
proof (induction ks)
  case Nil
  show ?case by simp
next
  case (Cons k ks)
  obtain ws where ws: "fst (stv candidates (apply_manipulation ballots i k s)) = Some ws"
    using stv_winners_Some [OF assms] by blast
  show ?case
  proof (cases "ws = [t]")
    case True
    with ws show ?thesis
      by (simp add: Let_def split_beta sole_winner_iff)
  next
    case False
    with ws Cons.IH show ?thesis
      by (simp add: Let_def split_beta sole_winner_iff)
  qed
qed

lemma find_sorted_least:
  fixes ks :: "int list"
  assumes "sorted ks" and "find P ks = Some k"
  shows "P k \<and> k \<in> set ks \<and> (\<forall>j \<in> set ks. P j \<longrightarrow> k \<le> j)"
  using assms
proof (induction ks)
  case Nil
  then show ?case by simp
next
  case (Cons a ks)
  show ?case
  proof (cases "P a")
    case True
    with Cons.prems show ?thesis by auto
  next
    case False
    with Cons.prems Cons.IH show ?thesis by auto
  qed
qed

lemma k_loop_inv:
  assumes ne: "candidates \<noteq> []"
    and i: "i < length ballots" and b: "ballots ! i = (w, r)"
    and s: "s = build_strategic_ballot_from_ranking r t ow candidates"
    and t: "t \<in> set candidates" "t \<noteq> ow" "prefers_over r t ow"
  shows "\<exists>best'. k_loop [1..w] candidates ballots t i r s best = Inr best'
      \<and> (valid_opt candidates ballots ow best \<longrightarrow> valid_opt candidates ballots ow best')
      \<and> (\<forall>k. bounded best k \<longrightarrow> bounded best' k)
      \<and> (\<forall>k. 1 \<le> k \<and> k \<le> w \<and> coalition_wins candidates ballots ow t i k \<longrightarrow> bounded best' k)"
proof -
  let ?P = "\<lambda>k. fst (stv candidates (apply_manipulation ballots i k s)) = Some [t]"
  have wins: "coalition_wins candidates ballots ow t i k = ?P k" for k
    by (simp add: coalition_wins_def b s)
  show ?thesis
  proof (cases "find ?P [1..w]")
    case None
    then have "\<forall>k. 1 \<le> k \<and> k \<le> w \<longrightarrow> \<not> ?P k"
      by (simp add: find_None_iff)
    with None show ?thesis
      by (auto simp: k_loop_closed [OF ne] wins)
  next
    case (Some k0)
    have least: "?P k0" "1 \<le> k0" "k0 \<le> w" "\<And>j. 1 \<le> j \<Longrightarrow> j \<le> w \<Longrightarrow> ?P j \<Longrightarrow> k0 \<le> j"
      using find_sorted_least [OF sorted_upto Some] by auto
    let ?new = "\<lparr>best_k = k0, best_target = t, best_type_index = i,
                  best_true_ranking = r, best_strategic_ballot = s,
                  best_new_elim_order = snd (stv candidates (apply_manipulation ballots i k0 s))\<rparr>"
    have valid_new: "valid_best candidates ballots ow ?new"
      using least(1-3) i b s t by (simp add: valid_best_def prod_eq_iff)
    show ?thesis
    proof (cases "case best of None \<Rightarrow> True | Some b \<Rightarrow> k0 < best_k b")
      case True
      then have res: "k_loop [1..w] candidates ballots t i r s best = Inr (Some ?new)"
        by (simp add: k_loop_closed [OF ne] Some)
      have "bounded (Some ?new) k" if "bounded best k" for k
        using that True by (auto simp: bounded_def split: option.splits)
      moreover have "bounded (Some ?new) k" if "1 \<le> k" "k \<le> w" "?P k" for k
        using least(4) [OF that] by (simp add: bounded_def)
      ultimately show ?thesis
        using valid_new by (simp add: res wins valid_opt_def)
    next
      case False
      then have res: "k_loop [1..w] candidates ballots t i r s best = Inr best"
        by (simp add: k_loop_closed [OF ne] Some)
      have "bounded best k" if "1 \<le> k" "k \<le> w" "?P k" for k
        using least(4) [OF that] False by (auto simp: bounded_def split: option.splits)
      then show ?thesis
        by (simp add: res wins)
    qed
  qed
qed


lemma type_loop_inv:
  assumes ne: "candidates \<noteq> []"
    and tys: "\<forall>x \<in> set tys. fst x < length ballots \<and> ballots ! fst x = snd x"
    and t: "t \<in> set candidates" "t \<noteq> ow"
  shows "\<exists>best'. type_loop tys candidates ballots t ow best = Inr best'
      \<and> (valid_opt candidates ballots ow best \<longrightarrow> valid_opt candidates ballots ow best')
      \<and> (\<forall>k. bounded best k \<longrightarrow> bounded best' k)
      \<and> (\<forall>x \<in> set tys. \<forall>k. prefers_over (snd (snd x)) t ow \<and> 1 \<le> k \<and> k \<le> fst (snd x)
            \<and> coalition_wins candidates ballots ow t (fst x) k \<longrightarrow> bounded best' k)"
  using tys
proof (induction tys arbitrary: best)
  case Nil
  show ?case by simp
next
  case (Cons x tys)
  obtain i w r where x: "x = (i, w, r)"
    by (cases x) auto
  from Cons.prems have i: "i < length ballots" and b: "ballots ! i = (w, r)"
    and rest: "\<forall>x \<in> set tys. fst x < length ballots \<and> ballots ! fst x = snd x"
    by (simp_all add: x)
  show ?case
  proof (cases "prefers_over r t ow")
    case False
    obtain best' where IH: "type_loop tys candidates ballots t ow best = Inr best'"
      "valid_opt candidates ballots ow best \<longrightarrow> valid_opt candidates ballots ow best'"
      "\<forall>k. bounded best k \<longrightarrow> bounded best' k"
      "\<forall>x \<in> set tys. \<forall>k. prefers_over (snd (snd x)) t ow \<and> 1 \<le> k \<and> k \<le> fst (snd x)
            \<and> coalition_wins candidates ballots ow t (fst x) k \<longrightarrow> bounded best' k"
      using Cons.IH [OF rest, where best = best] by blast
    have "type_loop (x # tys) candidates ballots t ow best = Inr best'"
      using False IH(1) by (simp add: x)
    with IH(2-4) False show ?thesis
      by (simp add: x)
  next
    case True
    define s where "s = build_strategic_ballot_from_ranking r t ow candidates"
    obtain best1 where k: "k_loop [1..w] candidates ballots t i r s best = Inr best1"
      "valid_opt candidates ballots ow best \<longrightarrow> valid_opt candidates ballots ow best1"
      "\<forall>k. bounded best k \<longrightarrow> bounded best1 k"
      "\<forall>k. 1 \<le> k \<and> k \<le> w \<and> coalition_wins candidates ballots ow t i k \<longrightarrow> bounded best1 k"
      using k_loop_inv [OF ne i b s_def t True, where best = best] by blast
    obtain best' where IH: "type_loop tys candidates ballots t ow best1 = Inr best'"
      "valid_opt candidates ballots ow best1 \<longrightarrow> valid_opt candidates ballots ow best'"
      "\<forall>k. bounded best1 k \<longrightarrow> bounded best' k"
      "\<forall>x \<in> set tys. \<forall>k. prefers_over (snd (snd x)) t ow \<and> 1 \<le> k \<and> k \<le> fst (snd x)
            \<and> coalition_wins candidates ballots ow t (fst x) k \<longrightarrow> bounded best' k"
      using Cons.IH [OF rest, where best = best1] by blast
    have "type_loop (x # tys) candidates ballots t ow best = Inr best'"
      using True k(1) IH(1) by (simp add: x s_def)
    moreover have "valid_opt candidates ballots ow best \<longrightarrow> valid_opt candidates ballots ow best'"
      using k(2) IH(2) by blast
    moreover have "\<forall>k. bounded best k \<longrightarrow> bounded best' k"
      using k(3) IH(3) by blast
    moreover have "\<forall>k. 1 \<le> k \<and> k \<le> w \<and> coalition_wins candidates ballots ow t i k
        \<longrightarrow> bounded best' k"
      using k(4) IH(3) by blast
    ultimately show ?thesis
      using IH(4) by (simp add: x)
  qed
qed

lemma enumerate_ballots:
  "\<forall>x \<in> set (enumerate 0 ballots). fst x < length ballots \<and> ballots ! fst x = snd x"
  by (simp add: in_set_enumerate_eq)

lemma target_loop_inv:
  assumes ne: "candidates \<noteq> []" and ts: "set ts \<subseteq> set candidates"
  shows "\<exists>best'. target_loop ts candidates ballots ow best = Inr best'
      \<and> (valid_opt candidates ballots ow best \<longrightarrow> valid_opt candidates ballots ow best')
      \<and> (\<forall>k. bounded best k \<longrightarrow> bounded best' k)
      \<and> (\<forall>t \<in> set ts. \<forall>i k. t \<noteq> ow \<and> i < length ballots
            \<and> prefers_over (snd (ballots ! i)) t ow \<and> 1 \<le> k \<and> k \<le> fst (ballots ! i)
            \<and> coalition_wins candidates ballots ow t i k \<longrightarrow> bounded best' k)"
  using ts
proof (induction ts arbitrary: best)
  case Nil
  show ?case by simp
next
  case (Cons t ts)
  then have t: "t \<in> set candidates" and rest: "set ts \<subseteq> set candidates"
    by simp_all
  show ?case
  proof (cases "t = ow")
    case True
    obtain best' where IH: "target_loop ts candidates ballots ow best = Inr best'"
      "valid_opt candidates ballots ow best \<longrightarrow> valid_opt candidates ballots ow best'"
      "\<forall>k. bounded best k \<longrightarrow> bounded best' k"
      "\<forall>t \<in> set ts. \<forall>i k. t \<noteq> ow \<and> i < length ballots
            \<and> prefers_over (snd (ballots ! i)) t ow \<and> 1 \<le> k \<and> k \<le> fst (ballots ! i)
            \<and> coalition_wins candidates ballots ow t i k \<longrightarrow> bounded best' k"
      using Cons.IH [OF rest, where best = best] by blast
    have "target_loop (t # ts) candidates ballots ow best = Inr best'"
      using True IH(1) by simp
    with IH(2-4) True show ?thesis
      by simp
  next
    case False
    obtain best1 where m: "type_loop (enumerate 0 ballots) candidates ballots t ow best = Inr best1"
      "valid_opt candidates ballots ow best \<longrightarrow> valid_opt candidates ballots ow best1"
      "\<forall>k. bounded best k \<longrightarrow> bounded best1 k"
      "\<forall>x \<in> set (enumerate 0 ballots). \<forall>k. prefers_over (snd (snd x)) t ow \<and> 1 \<le> k
            \<and> k \<le> fst (snd x) \<and> coalition_wins candidates ballots ow t (fst x) k
            \<longrightarrow> bounded best1 k"
      using type_loop_inv [OF ne enumerate_ballots t False, where best = best] by blast
    obtain best' where IH: "target_loop ts candidates ballots ow best1 = Inr best'"
      "valid_opt candidates ballots ow best1 \<longrightarrow> valid_opt candidates ballots ow best'"
      "\<forall>k. bounded best1 k \<longrightarrow> bounded best' k"
      "\<forall>t \<in> set ts. \<forall>i k. t \<noteq> ow \<and> i < length ballots
            \<and> prefers_over (snd (ballots ! i)) t ow \<and> 1 \<le> k \<and> k \<le> fst (ballots ! i)
            \<and> coalition_wins candidates ballots ow t i k \<longrightarrow> bounded best' k"
      using Cons.IH [OF rest, where best = best1] by blast
    have head: "bounded best1 k"
      if "i < length ballots" "prefers_over (snd (ballots ! i)) t ow" "1 \<le> k"
        "k \<le> fst (ballots ! i)" "coalition_wins candidates ballots ow t i k" for i k
    proof -
      have "(i, ballots ! i) \<in> set (enumerate 0 ballots)"
        using that(1) by (simp add: in_set_enumerate_eq)
      with m(4) that(2-5) show ?thesis
        by fastforce
    qed
    have "target_loop (t # ts) candidates ballots ow best = Inr best'"
      using False m(1) IH(1) by simp
    moreover have "valid_opt candidates ballots ow best \<longrightarrow> valid_opt candidates ballots ow best'"
      using m(2) IH(2) by blast
    moreover have "\<forall>k. bounded best k \<longrightarrow> bounded best' k"
      using m(3) IH(3) by blast
    moreover have "\<forall>i k. t \<noteq> ow \<and> i < length ballots
            \<and> prefers_over (snd (ballots ! i)) t ow \<and> 1 \<le> k \<and> k \<le> fst (ballots ! i)
            \<and> coalition_wins candidates ballots ow t i k \<longrightarrow> bounded best' k"
      using head IH(3) by blast
    ultimately show ?thesis
      using IH(4) by simp
  qed
qed


lemma valid_best_wins:
  assumes "valid_best candidates ballots ow b"
  shows "coalition_wins candidates ballots ow (best_target b) (best_type_index b) (best_k b)"
proof -
  from assms have s: "best_strategic_ballot b =
      build_strategic_ballot_from_ranking (snd (ballots ! best_type_index b))
        (best_target b) ow candidates"
    and "stv candidates
           (apply_manipulation ballots (best_type_index b) (best_k b) (best_strategic_ballot b))
          = (Some [best_target b], best_new_elim_order b)"
    unfolding valid_best_def by blast+
  then show ?thesis
    unfolding coalition_wins_def s [symmetric] by simp
qed

lemma search_result:
  assumes ne: "candidates \<noteq> []"
  shows "\<exists>best'. target_loop candidates candidates ballots ow None = Inr best'
      \<and> valid_opt candidates ballots ow best'
      \<and> (\<forall>t \<in> set candidates. \<forall>i k. t \<noteq> ow \<and> i < length ballots
            \<and> prefers_over (snd (ballots ! i)) t ow \<and> 1 \<le> k \<and> k \<le> fst (ballots ! i)
            \<and> coalition_wins candidates ballots ow t i k \<longrightarrow> bounded best' k)"
  using target_loop_inv [OF ne subset_refl, where best = None and ballots = ballots and ow = ow]
  by (auto simp: valid_opt_def)

lemma find_smallest_nonempty:
  assumes ne: "candidates \<noteq> []"
  shows "\<exists>res. find_smallest_manipulating_coalition candidates ballots = Inr res"
proof -
  obtain ws where ws: "fst (stv candidates ballots) = Some ws"
    using stv_winners_Some [OF ne] by blast
  obtain best' where "target_loop candidates candidates ballots (ws ! 0) None = Inr best'"
    using search_result [OF ne] by blast
  with ws show ?thesis
    by (simp add: find_smallest_manipulating_coalition_def Let_def split: option.splits)
qed

lemma find_smallest_None_iff:
  assumes ne: "candidates \<noteq> []"
  shows "find_smallest_manipulating_coalition candidates ballots = Inr None
     \<longleftrightarrow> (\<forall>ow. fst (stv candidates ballots) = Some [ow] \<longrightarrow>
           (\<forall>t \<in> set candidates. \<forall>i k. t \<noteq> ow \<and> i < length ballots
              \<and> prefers_over (snd (ballots ! i)) t ow \<and> 1 \<le> k \<and> k \<le> fst (ballots ! i)
              \<longrightarrow> \<not> coalition_wins candidates ballots ow t i k))"
proof -
  obtain ws where ws: "fst (stv candidates ballots) = Some ws"
    using stv_winners_Some [OF ne] by blast
  show ?thesis
  proof (cases "length ws = Suc 0")
    case False
    then have "ws \<noteq> [ow]" for ow
      by auto
    with False ws show ?thesis
      by (simp add: find_smallest_manipulating_coalition_def)
  next
    case True
    then obtain ow where ow: "ws = [ow]"
      by (cases ws) auto
    obtain best' where best': "target_loop candidates candidates ballots ow None = Inr best'"
      and valid: "valid_opt candidates ballots ow best'"
      and cover: "\<forall>t \<in> set candidates. \<forall>i k. t \<noteq> ow \<and> i < length ballots
            \<and> prefers_over (snd (ballots ! i)) t ow \<and> 1 \<le> k \<and> k \<le> fst (ballots ! i)
            \<and> coalition_wins candidates ballots ow t i k \<longrightarrow> bounded best' k"
      using search_result [OF ne] by blast
    show ?thesis
    proof (cases best')
      case None
      with cover have "\<forall>t \<in> set candidates. \<forall>i k. t \<noteq> ow \<and> i < length ballots
            \<and> prefers_over (snd (ballots ! i)) t ow \<and> 1 \<le> k \<and> k \<le> fst (ballots ! i)
            \<longrightarrow> \<not> coalition_wins candidates ballots ow t i k"
        by (auto simp: bounded_def)
      with None best' ws ow show ?thesis
        by (simp add: find_smallest_manipulating_coalition_def)
    next
      case (Some b)
      with valid have v: "valid_best candidates ballots ow b"
        by (simp add: valid_opt_def)
      then have "coalition_wins candidates ballots ow (best_target b) (best_type_index b) (best_k b)"
        by (rule valid_best_wins)
      with v have "\<not> (\<forall>t \<in> set candidates. \<forall>i k. t \<noteq> ow \<and> i < length ballots
            \<and> prefers_over (snd (ballots ! i)) t ow \<and> 1 \<le> k \<and> k \<le> fst (ballots ! i)
            \<longrightarrow> \<not> coalition_wins candidates ballots ow t i k)"
        unfolding valid_best_def by blast
      with Some best' ws ow show ?thesis
        by (simp add: find_smallest_manipulating_coalition_def)
    qed
  qed
qed

text \<open>
  C1. When the search returns a result with incumbent winner \<open>w\<close>, target \<open>t\<close>, type
  index \<open>i\<close> and coalition size \<open>k\<close>, then \<open>w\<close> is the only winner of the unmodified
  election, the type \<open>i\<close> strictly prefers \<open>t\<close> over \<open>w\<close>, \<open>k\<close> lies between 1 and the
  weight of the type, and moving \<open>k\<close> voters of type \<open>i\<close> to the strategic ranking built
  for \<open>(t, i)\<close> makes \<open>t\<close> the only winner. Moreover no candidate other than \<open>w\<close>, no
  type that strictly prefers that candidate over \<open>w\<close> and no size below \<open>k\<close>, between 1
  and the weight of that type, makes that candidate the only winner: \<open>k\<close> is the smallest
  coalition size over all eligible combinations.
\<close>

theorem smallest_coalition_minimal:
  assumes "find_smallest_manipulating_coalition candidates ballots = Inr (Some res)"
  shows "fst (stv candidates ballots) = Some [orig_winner res]
    \<and> target res \<in> set candidates \<and> target res \<noteq> orig_winner res
    \<and> type_index res < length ballots
    \<and> prefers_over (snd (ballots ! type_index res)) (target res) (orig_winner res)
    \<and> 1 \<le> coalition_size res \<and> coalition_size res \<le> fst (ballots ! type_index res)
    \<and> strategic_ballot res =
        build_strategic_ballot_from_ranking (snd (ballots ! type_index res)) (target res)
          (orig_winner res) candidates
    \<and> coalition_wins candidates ballots (orig_winner res) (target res) (type_index res)
        (coalition_size res)
    \<and> (\<forall>t i k. t \<in> set candidates \<and> t \<noteq> orig_winner res \<and> i < length ballots
          \<and> prefers_over (snd (ballots ! i)) t (orig_winner res)
          \<and> 1 \<le> k \<and> k \<le> fst (ballots ! i) \<and> k < coalition_size res
          \<longrightarrow> \<not> coalition_wins candidates ballots (orig_winner res) t i k)"
proof -
  from assms obtain ws where ws: "fst (stv candidates ballots) = Some ws"
    by (auto simp: find_smallest_manipulating_coalition_def split: option.splits)
  with assms have len: "length ws = Suc 0"
    by (auto simp: find_smallest_manipulating_coalition_def split: if_splits)
  then obtain ow where ow: "ws = [ow]"
    by (cases ws) auto
  have ne: "candidates \<noteq> []"
    using ws by (auto simp: stv_def)
  obtain best' where best': "target_loop candidates candidates ballots ow None = Inr best'"
    and valid: "valid_opt candidates ballots ow best'"
    and cover: "\<forall>t \<in> set candidates. \<forall>i k. t \<noteq> ow \<and> i < length ballots
          \<and> prefers_over (snd (ballots ! i)) t ow \<and> 1 \<le> k \<and> k \<le> fst (ballots ! i)
          \<and> coalition_wins candidates ballots ow t i k \<longrightarrow> bounded best' k"
    using search_result [OF ne] by blast
  from assms ws ow best' obtain b where b: "best' = Some b"
    and res: "res = \<lparr>orig_winner = ow, coalition_size = best_k b,
                      target = best_target b, type_index = best_type_index b,
                      true_ranking = best_true_ranking b,
                      strategic_ballot = best_strategic_ballot b,
                      new_elim_order = best_new_elim_order b\<rparr>"
    by (auto simp: find_smallest_manipulating_coalition_def split: option.splits)
  from valid b have v: "valid_best candidates ballots ow b"
    by (simp add: valid_opt_def)
  have minimal: "\<not> coalition_wins candidates ballots ow t i k"
    if "t \<in> set candidates" "t \<noteq> ow" "i < length ballots" "prefers_over (snd (ballots ! i)) t ow"
      "1 \<le> k" "k \<le> fst (ballots ! i)" "k < best_k b" for t i k
  proof
    assume "coalition_wins candidates ballots ow t i k"
    with cover that(1-6) have "bounded best' k"
      by blast
    with b that(7) show False
      by (simp add: bounded_def)
  qed
  have wins: "coalition_wins candidates ballots ow (best_target b) (best_type_index b) (best_k b)"
    using v by (rule valid_best_wins)
  show ?thesis
    using v wins minimal ws ow
    by (simp add: res valid_best_def)
qed

theorem smallest_coalition_minimal_witness:
  "find_smallest_manipulating_coalition [1, 2, 3] manipulation_ballots =
     Inr (Some \<lparr>orig_winner = 3, coalition_size = 2, target = 2, type_index = 0,
                true_ranking = [[1], [2], [3]], strategic_ballot = [[2], [1], [3]],
                new_elim_order = [1, 3, 2]\<rparr>)
   \<and> coalition_wins [1, 2, 3] manipulation_ballots 3 2 0 2
   \<and> \<not> coalition_wins [1, 2, 3] manipulation_ballots 3 2 0 1
   \<and> \<not> coalition_wins [1, 2, 3] manipulation_ballots 3 2 1 1"
proof -
  have found: "find_smallest_manipulating_coalition [1, 2, 3] manipulation_ballots =
     Inr (Some \<lparr>orig_winner = 3, coalition_size = 2, target = 2, type_index = 0,
                true_ranking = [[1], [2], [3]], strategic_ballot = [[2], [1], [3]],
                new_elim_order = [1, 3, 2]\<rparr>)"
    unfolding manipulation_ballots_def by code_simp
  have p0: "prefers_over (snd (manipulation_ballots ! 0)) 2 3"
    unfolding manipulation_ballots_def by code_simp
  have p1: "prefers_over (snd (manipulation_ballots ! 1)) 2 3"
    unfolding manipulation_ballots_def by code_simp
  have w: "fst (manipulation_ballots ! 0) = 3" "fst (manipulation_ballots ! 1) = 1"
    "length manipulation_ballots = 3"
    by (simp_all add: manipulation_ballots_def)
  from smallest_coalition_minimal [OF found] p0 p1 w show ?thesis
    by (simp add: found)
qed

text \<open>
  C8. For an empty candidate list \<open>stv\<close> returns \<open>None\<close> for the winners, and
  \<open>len(orig_winners)\<close> raises \<open>TypeError\<close>: the search fails instead of returning its
  sentinel. With exact scores and a non-empty candidate list the search returns
  (\<open>find_smallest_nonempty\<close>), and it returns the sentinel exactly when the winner is not
  unique or no eligible combination wins (\<open>find_smallest_None_iff\<close>).
\<close>

theorem find_smallest_empty_candidates:
  "find_smallest_manipulating_coalition [] ballots = Inl TypeError"
  by (simp add: find_smallest_manipulating_coalition_def stv_def)


end
